theory Spec2Isabelle
  imports Main
begin

section \<open>JavaScript values, exceptions and callables\<close>

text \<open>
  The function combinators of \<^verbatim>\<open>src/arrays/index.ts\<close> (\<^verbatim>\<open>chainAsync\<close>, \<^verbatim>\<open>compose\<close>,
  \<^verbatim>\<open>curry\<close>, \<^verbatim>\<open>pipeFunctions\<close>, \<^verbatim>\<open>promisify\<close>, \<^verbatim>\<open>runPromisesInSeries\<close>) are typed
  over \<^verbatim>\<open>any\<close> and \<^verbatim>\<open>Function\<close>. Values of type \<^verbatim>\<open>any\<close> are modelled by \<open>jsval\<close>:
  the primitives, with integer-valued numbers and \<open>NaN\<close>, and opaque object references
  (\<open>Ref\<close>: objects, arrays, \<^verbatim>\<open>Error\<close> instances). A \<open>jsval\<close> is data: it is not
  callable, and it is not a thenable. Where the runtime looks whether a value is a
  thenable (the argument of \<^verbatim>\<open>resolve\<close>, what a function handed to \<^verbatim>\<open>then\<close> returns),
  thenables are modelled apart from the plain values.
\<close>

datatype jsval = Undefined | Null | Bool bool | Num int | NaN | Str string | Ref nat

text \<open>The truthiness test of a conditional (\<^verbatim>\<open>ToBoolean\<close>).\<close>

fun truthy :: "jsval \<Rightarrow> bool" where
  "truthy Undefined = False"
| "truthy Null = False"
| "truthy (Bool b) = b"
| "truthy (Num n) = (n \<noteq> 0)"
| "truthy NaN = False"
| "truthy (Str s) = (s \<noteq> [])"
| "truthy (Ref r) = True"

text \<open>
  An abrupt completion is either the \<^verbatim>\<open>TypeError\<close> the runtime raises (reducing an empty
  array without an initial value, calling something that is not a function) or a value
  thrown by a caller-supplied function.
\<close>

datatype exn = TypeError | Thrown jsval

text \<open>
  A \<^verbatim>\<open>Function\<close> is an object, and \<^verbatim>\<open>===\<close> on functions compares objects, not behaviour.
  The identity of a function the caller declares is \<open>Declared n\<close>. Every closure that
  the callbacks of \<^verbatim>\<open>compose\<close> and \<^verbatim>\<open>pipeFunctions\<close> build is a new object: its identity
  records the two function objects it closes over, so it differs from the identity of
  either, and of anything they were built from. (Closures built twice over the same two
  functions are not told apart; identities are used only to tell a function from the
  functions wrapped around it.)
\<close>

datatype ident = Declared nat | Composed ident ident | Piped ident ident

text \<open>
  A function object has an identity, a declared parameter count (\<^verbatim>\<open>fn.length\<close>) and a
  behaviour: called on an argument list in a state of the world \<open>'s\<close>, it returns a value
  or throws, and leaves a new state. The state carries every side effect of the caller's
  functions, so that the order and the number of invocations show in the result.
\<close>

record 's jsfun =
  fn_ident :: ident
  fn_length :: nat
  fn_call :: "jsval list \<Rightarrow> 's \<Rightarrow> (exn + jsval) \<times> 's"

text \<open>Evaluation order: \<open>js_bind m k\<close> runs \<open>m\<close>, and \<open>k\<close> on its value unless \<open>m\<close> threw.\<close>

definition js_bind ::
  "('s \<Rightarrow> (exn + 'a) \<times> 's) \<Rightarrow> ('a \<Rightarrow> 's \<Rightarrow> (exn + 'b) \<times> 's) \<Rightarrow> 's \<Rightarrow> (exn + 'b) \<times> 's" where
  "js_bind m k s = (case m s of (Inl e, s') \<Rightarrow> (Inl e, s') | (Inr v, s') \<Rightarrow> k v s')"

text \<open>
  \<^verbatim>\<open>Array.prototype.reduce\<close> called without an initial value: a \<^verbatim>\<open>TypeError\<close> on the
  empty array; otherwise the first element starts the accumulator and the callback runs on
  the others, left to right (on a one-element array the callback never runs). The
  callbacks of this file only build closures, so the callback is a pure function.
\<close>

definition array_reduce :: "('a \<Rightarrow> 'a \<Rightarrow> 'a) \<Rightarrow> 'a list \<Rightarrow> exn + 'a" where
  "array_reduce cb xs = (case xs of [] \<Rightarrow> Inl TypeError | x # rest \<Rightarrow> Inr (foldl cb x rest))"

text \<open>\<^verbatim>\<open>Array.prototype.reduce\<close> called with an initial value.\<close>

definition array_reduce_from :: "('b \<Rightarrow> 'a \<Rightarrow> 'b) \<Rightarrow> 'b \<Rightarrow> 'a list \<Rightarrow> 'b" where
  "array_reduce_from cb init xs = foldl cb init xs"

section \<open>compose and pipeFunctions\<close>

text \<open>
  \<^verbatim>\<open>export const compose = (...fns: Function[]) =>
    fns.reduce((f, g) => (...args: any[]) => f(g(...args)))\<close>

  The closure built by the callback is a new function object; it has a rest parameter
  only, hence length 0; called on \<open>args\<close> it calls \<open>g\<close> on \<open>args\<close> and then \<open>f\<close> on the one
  value \<open>g\<close> returned.
\<close>

definition compose :: "'s jsfun list \<Rightarrow> exn + 's jsfun" where
  "compose fns =
     array_reduce
       (\<lambda>f g. \<lparr>fn_ident = Composed (fn_ident f) (fn_ident g),
               fn_length = 0,
               fn_call = (\<lambda>args. js_bind (fn_call g args) (\<lambda>r. fn_call f [r]))\<rparr>)
       fns"

text \<open>
  \<^verbatim>\<open>export const pipeFunctions = (...fns: Function[]) =>
    fns.reduce((f, g) => (...args: any[]) => g(f(...args)))\<close>
\<close>

definition pipeFunctions :: "'s jsfun list \<Rightarrow> exn + 's jsfun" where
  "pipeFunctions fns =
     array_reduce
       (\<lambda>f g. \<lparr>fn_ident = Piped (fn_ident f) (fn_ident g),
               fn_length = 0,
               fn_call = (\<lambda>args. js_bind (fn_call f args) (\<lambda>r. fn_call g [r]))\<rparr>)
       fns"

text \<open>
  The caller's expression \<^verbatim>\<open>compose(...fns)(...args)\<close>: the combinator is evaluated first,
  and what it returned is applied to the arguments.
\<close>

definition apply_to :: "exn + 's jsfun \<Rightarrow> jsval list \<Rightarrow> 's \<Rightarrow> (exn + jsval) \<times> 's" where
  "apply_to r args s = (case r of Inl e \<Rightarrow> (Inl e, s) | Inr h \<Rightarrow> fn_call h args s)"

text \<open>
  The specification's words for \<^verbatim>\<open>compose(f1, f2, ..., fn)\<close>, as a definition of its own:
  \<open>nested f1 [f2, ..., fn] args\<close> is \<^verbatim>\<open>f1(f2(...fn(...args)))\<close>. The rightmost function
  receives the argument list, every other function the one value computed to its right.
\<close>

fun nested :: "'s jsfun \<Rightarrow> 's jsfun list \<Rightarrow> jsval list \<Rightarrow> 's \<Rightarrow> (exn + jsval) \<times> 's" where
  "nested f [] args = fn_call f args"
| "nested f (g # gs) args = js_bind (nested g gs args) (\<lambda>r. fn_call f [r])"

text \<open>
  The specification's words for \<^verbatim>\<open>pipeFunctions(f1, ..., fn)\<close>: \<open>piped f1 [f2, ..., fn] args\<close>
  is \<^verbatim>\<open>fn(...(f2(f1(...args))))\<close>. The leftmost function receives the argument list and
  \<open>feed\<close> hands each later function the one value computed to its left.
\<close>

fun feed :: "'s jsfun list \<Rightarrow> jsval \<Rightarrow> 's \<Rightarrow> (exn + jsval) \<times> 's" where
  "feed [] r = (\<lambda>s. (Inr r, s))"
| "feed (g # gs) r = js_bind (fn_call g [r]) (feed gs)"

definition piped :: "'s jsfun \<Rightarrow> 's jsfun list \<Rightarrow> jsval list \<Rightarrow> 's \<Rightarrow> (exn + jsval) \<times> 's" where
  "piped f gs args = js_bind (fn_call f args) (feed gs)"

section \<open>curry\<close>

text \<open>
  \<^verbatim>\<open>export const curry = (fn: Function, arity = fn.length, ...args: any[]) =>
    arity <= args.length ? fn(...args) : curry.bind(null, fn, arity, ...args)\<close>

  \<^verbatim>\<open>curry\<close> returns either what \<open>fn\<close> returned (\<open>Plain\<close>) or the bound function
  \<^verbatim>\<open>curry.bind(null, fn, arity, ...args)\<close>, which is determined by \<open>fn\<close>, the arity and the
  arguments accumulated so far (\<open>Partial\<close>). An omitted arity (\<open>None\<close>) defaults to
  \<^verbatim>\<open>fn.length\<close>; an explicit one is any integer.
\<close>

datatype 's curried = Plain jsval | Partial "'s jsfun" int "jsval list"

definition curry_js ::
  "'s jsfun \<Rightarrow> int option \<Rightarrow> jsval list \<Rightarrow> 's \<Rightarrow> (exn + 's curried) \<times> 's" where
  "curry_js fn arity_arg args s =
     (let arity = (case arity_arg of None \<Rightarrow> int (fn_length fn) | Some a \<Rightarrow> a)
      in if arity \<le> int (length args)
         then (case fn_call fn args s of
                 (Inl e, s') \<Rightarrow> (Inl e, s')
               | (Inr v, s') \<Rightarrow> (Inr (Plain v), s'))
         else (Inr (Partial fn arity args), s))"

text \<open>
  Calling what \<^verbatim>\<open>curry\<close> returned on further arguments. The bound function prepends its
  bound arguments: it calls \<^verbatim>\<open>curry(fn, arity, ...args, ...extra)\<close>. A \<open>Plain\<close> value is
  data, and calling it is a \<^verbatim>\<open>TypeError\<close>.
\<close>

definition call_curried :: "'s curried \<Rightarrow> jsval list \<Rightarrow> 's \<Rightarrow> (exn + 's curried) \<times> 's" where
  "call_curried c extra s =
     (case c of
        Partial fn arity args \<Rightarrow> curry_js fn (Some arity) (args @ extra) s
      | Plain v \<Rightarrow> (Inl TypeError, s))"

text \<open>
  The caller's expression \<^verbatim>\<open>c(...g1)(...g2)...(...gm)\<close>: one application per group of
  arguments, left to right, stopping at the first exception.
\<close>

fun apply_groups :: "'s curried \<Rightarrow> jsval list list \<Rightarrow> 's \<Rightarrow> (exn + 's curried) \<times> 's" where
  "apply_groups c [] s = (Inr c, s)"
| "apply_groups c (g # gs) s =
     (case call_curried c g s of
        (Inl e, s') \<Rightarrow> (Inl e, s')
      | (Inr c', s') \<Rightarrow> apply_groups c' gs s')"

text \<open>One direct call \<^verbatim>\<open>fn(...args)\<close>, its value tagged as a plain result.\<close>

definition direct_call :: "'s jsfun \<Rightarrow> jsval list \<Rightarrow> 's \<Rightarrow> (exn + 's curried) \<times> 's" where
  "direct_call fn args s =
     (case fn_call fn args s of (Inl e, s') \<Rightarrow> (Inl e, s') | (Inr v, s') \<Rightarrow> (Inr (Plain v), s'))"

section \<open>Promises\<close>

text \<open>
  The state a promise ends in: fulfilled with a value, rejected with a reason, or pending
  for ever.
\<close>

datatype promise = Pending | Fulfilled jsval | Rejected jsval

text \<open>
  What \<^verbatim>\<open>resolve\<close> is called on is a plain value or a thenable (a promise, or any object
  with a \<^verbatim>\<open>then\<close> method). \<^verbatim>\<open>resolve\<close> fulfils the promise with a plain value, but it
  follows a thenable: the promise then ends as the thenable does. A thenable is described
  by the state that following it ends in.
\<close>

datatype resolution = Value jsval | Thenable promise

text \<open>
  A promise under construction is unresolved until \<^verbatim>\<open>resolve\<close> or \<^verbatim>\<open>reject\<close> is called. The
  first call decides the state the promise ends in, also when that state is reached only
  later, by following a thenable; \<^verbatim>\<open>resolve\<close> and \<^verbatim>\<open>reject\<close> of a promise that is already
  resolved do nothing, and neither throws.
\<close>

datatype fate = Unresolved | Resolved promise

definition resolve :: "resolution \<Rightarrow> fate \<Rightarrow> fate" where
  "resolve r c =
     (if c = Unresolved
      then Resolved (case r of Value v \<Rightarrow> Fulfilled v | Thenable q \<Rightarrow> q)
      else c)"

definition reject :: "jsval \<Rightarrow> fate \<Rightarrow> fate" where
  "reject e c = (if c = Unresolved then Resolved (Rejected e) else c)"

text \<open>The state a promise ends in when nothing more is done to it.\<close>

definition ends_in :: "fate \<Rightarrow> promise" where
  "ends_in c = (case c of Unresolved \<Rightarrow> Pending | Resolved q \<Rightarrow> q)"

section \<open>promisify\<close>

text \<open>
  \<^verbatim>\<open>export const promisify = (fn: Function) => (...args: any[]) =>
    new Promise((resolve, reject) =>
      fn(...args, (err: any, result: any) => (err ? reject(err) : resolve(result))))\<close>

  The wrapped function is handed the arguments and the completion callback. The callback
  returns \<^verbatim>\<open>undefined\<close> and never throws, and the promise is not reachable from the wrapped
  function, so all that the wrapped function can do to the promise is described by the
  callback invocations it makes: those made before it returns (\<open>during\<close>), whether it then
  throws instead of returning (\<open>throws\<close>), and those made later, from timers or I/O
  completions (\<open>afterwards\<close>). An invocation is the pair of the callback's two arguments:
  the error, which is only tested and passed on, and the result, a plain value or a
  thenable; an absent argument is \<^verbatim>\<open>undefined\<close>.
\<close>

record cb_use =
  during :: "(jsval \<times> resolution) list"
  throws :: "jsval option"
  afterwards :: "(jsval \<times> resolution) list"

text \<open>The completion callback \<^verbatim>\<open>(err, result) => (err ? reject(err) : resolve(result))\<close>.\<close>

definition completion_callback :: "jsval \<Rightarrow> resolution \<Rightarrow> fate \<Rightarrow> fate" where
  "completion_callback err result c = (if truthy err then reject err c else resolve result c)"

text \<open>
  \<open>promisify fn args\<close> is the promise as \<^verbatim>\<open>promisify(fn)(...args)\<close> returns it: the executor
  has run \<^verbatim>\<open>fn(...args, callback)\<close>, and an exception of the executor rejects the promise
  (the \<^verbatim>\<open>Promise\<close> constructor catches it).
\<close>

definition promisify :: "(jsval list \<Rightarrow> cb_use) \<Rightarrow> jsval list \<Rightarrow> fate" where
  "promisify fn args =
     (let u = fn args;
          c = foldl (\<lambda>c (err, result). completion_callback err result c) Unresolved (during u)
      in case throws u of None \<Rightarrow> c | Some e \<Rightarrow> reject e c)"

text \<open>
  The state that promise ends in, once the later callback invocations have been made.
\<close>

definition promisify_settled :: "(jsval list \<Rightarrow> cb_use) \<Rightarrow> jsval list \<Rightarrow> promise" where
  "promisify_settled fn args =
     ends_in (foldl (\<lambda>c (err, result). completion_callback err result c) (promisify fn args)
                (afterwards (fn args)))"

text \<open>All the callback invocations of a call, in the order they are made.\<close>

definition invocations :: "cb_use \<Rightarrow> (jsval \<times> resolution) list" where
  "invocations u = during u @ afterwards u"

text \<open>
  The state in which the completion callback, invoked on \<open>err\<close> and \<open>result\<close>, makes an
  unresolved promise end.
\<close>

definition decided :: "jsval \<Rightarrow> resolution \<Rightarrow> promise" where
  "decided err result =
     (if truthy err then Rejected err
      else case result of Value v \<Rightarrow> Fulfilled v | Thenable q \<Rightarrow> q)"

section \<open>runPromisesInSeries\<close>

text \<open>
  \<^verbatim>\<open>export const runPromisesInSeries = (ps: any) =>
    ps.reduce((p: any, next: any) => p.then(next), Promise.resolve())\<close>

  Here a promise is described by the state it ends in (\<open>Pending\<close>: it never settles)
  together with the effect on the world of the callbacks that run on the way to it. A
  function handed to \<^verbatim>\<open>then\<close> is called on the fulfilment value; it returns a promise
  or another thenable (given by the state that following it ends in), returns a plain
  value, or throws.
\<close>

datatype returned = ReturnsPromise promise | ReturnsValue jsval | Throws jsval

type_synonym 's deferred = "'s \<Rightarrow> promise \<times> 's"

type_synonym 's producer = "jsval \<Rightarrow> 's \<Rightarrow> returned \<times> 's"

text \<open>\<^verbatim>\<open>Promise.resolve(v)\<close>; \<^verbatim>\<open>Promise.resolve()\<close> is \<open>promise_resolve Undefined\<close>.\<close>

definition promise_resolve :: "jsval \<Rightarrow> 's deferred" where
  "promise_resolve v = (\<lambda>s. (Fulfilled v, s))"

text \<open>
  \<^verbatim>\<open>p.then(f)\<close> with no rejection handler: \<open>f\<close> is called only once \<open>p\<close> is fulfilled, on
  the fulfilment value; the new promise follows the promise \<open>f\<close> returns, is fulfilled with
  the plain value \<open>f\<close> returns, or is rejected with what \<open>f\<close> throws. A rejection of \<open>p\<close>
  passes through and \<open>f\<close> is not called; if \<open>p\<close> never settles, nothing happens.
\<close>

definition promise_then :: "'s deferred \<Rightarrow> 's producer \<Rightarrow> 's deferred" where
  "promise_then p f =
     (\<lambda>s. case p s of
        (Fulfilled v, s') \<Rightarrow>
          (case f v s' of
             (ReturnsPromise q, s'') \<Rightarrow> (q, s'')
           | (ReturnsValue w, s'') \<Rightarrow> (Fulfilled w, s'')
           | (Throws e, s'') \<Rightarrow> (Rejected e, s''))
      | (Rejected e, s') \<Rightarrow> (Rejected e, s')
      | (Pending, s') \<Rightarrow> (Pending, s'))"

definition runPromisesInSeries :: "'s producer list \<Rightarrow> 's deferred" where
  "runPromisesInSeries ps =
     array_reduce_from (\<lambda>p next_fn. promise_then p next_fn) (promise_resolve Undefined) ps"

text \<open>
  The specification's words, as a definition of its own: run the functions in list
  order, each on the value the previous promise resolved to (\<open>prev\<close>), each only after the
  previous promise has fulfilled; stop at the first failure, with its error.
\<close>

fun in_series :: "'s producer list \<Rightarrow> jsval \<Rightarrow> 's \<Rightarrow> promise \<times> 's" where
  "in_series [] prev s = (Fulfilled prev, s)"
| "in_series (f # fs) prev s =
     (case f prev s of
        (ReturnsPromise (Fulfilled v), s') \<Rightarrow> in_series fs v s'
      | (ReturnsPromise (Rejected e), s') \<Rightarrow> (Rejected e, s')
      | (ReturnsPromise Pending, s') \<Rightarrow> (Pending, s')
      | (ReturnsValue v, s') \<Rightarrow> in_series fs v s'
      | (Throws e, s') \<Rightarrow> (Rejected e, s'))"

section \<open>chainAsync\<close>

text \<open>
  \<^verbatim>\<open>export const chainAsync = (fns: Function[]) => {
    let curr = 0
    const next = () => fns[curr++](next)
    next()
  }\<close>

  A step is a caller-supplied function of the continuation \<^verbatim>\<open>next\<close>. What matters to the
  chain is what the step does with \<^verbatim>\<open>next\<close>, so a step is modelled by its body as a
  sequence of actions: it calls \<^verbatim>\<open>next()\<close> there and then (\<open>CallNext\<close>); it calls \<^verbatim>\<open>next()\<close>
  there and then and catches what the call throws, as \<^verbatim>\<open>try { next() } catch (e) {}\<close> does
  (\<open>TryNext\<close>; for its caller an \<^verbatim>\<open>async\<close> step behaves so too, since what its body throws
  only rejects the promise it returns); it hands \<^verbatim>\<open>next\<close> to the host to be called later,
  as \<^verbatim>\<open>setTimeout(next, 1000)\<close> does (\<open>DeferNext\<close>); or it throws (\<open>Raise\<close>). A step returns
  \<^verbatim>\<open>undefined\<close> at the end of its body, and it leaves the list of steps as it is.
\<close>

datatype action = CallNext | TryNext | DeferNext | Raise jsval

type_synonym step = "action list"

text \<open>
  The state of one chain: the variable \<^verbatim>\<open>curr\<close> of the closure, the host's queue of
  deferred calls of \<^verbatim>\<open>next\<close> (each tagged with the step that deferred it), and a history of
  what happened, kept for stating properties: \<open>Advance c\<close> when \<^verbatim>\<open>next\<close> is invoked by \<open>c\<close>
  (\<^verbatim>\<open>chainAsync\<close> itself, or a step, directly or through its deferred call), \<open>Began i\<close> when
  step \<open>i\<close> is invoked, \<open>Fault\<close> when \<^verbatim>\<open>fns[curr++]\<close> is past the end of the list, so that
  calling it raises a \<^verbatim>\<open>TypeError\<close>.
\<close>

datatype caller = Root | Step nat

datatype event = Advance caller | Began nat | Fault

record chain =
  curr :: nat
  timers :: "nat list"
  trace :: "event list"

text \<open>
  \<open>call_next\<close> is \<^verbatim>\<open>next\<close>: it reads \<^verbatim>\<open>fns[curr]\<close>, increments \<^verbatim>\<open>curr\<close> and calls what it
  read on \<^verbatim>\<open>next\<close>; reading past the end gives \<^verbatim>\<open>undefined\<close>, and the call raises a
  \<^verbatim>\<open>TypeError\<close> (after the increment). \<open>run_step\<close> runs the body of step \<open>i\<close>; an
  exception raised in a nested call of \<^verbatim>\<open>next\<close> ends the body, unless the step catches it.
\<close>

function call_next :: "step list \<Rightarrow> caller \<Rightarrow> chain \<Rightarrow> (exn + jsval) \<times> chain"
  and run_step :: "step list \<Rightarrow> nat \<Rightarrow> action list \<Rightarrow> chain \<Rightarrow> (exn + jsval) \<times> chain"
where
  "call_next fns who st =
     (let i = curr st;
          st' = st\<lparr>curr := i + 1, trace := trace st @ [Advance who]\<rparr>
      in if i < length fns
         then run_step fns i (fns ! i) (st'\<lparr>trace := trace st' @ [Began i]\<rparr>)
         else (Inl TypeError, st'\<lparr>trace := trace st' @ [Fault]\<rparr>))"
| "run_step fns i [] st = (Inr Undefined, st)"
| "run_step fns i (CallNext # acts) st =
     (case call_next fns (Step i) st of
        (Inl e, st') \<Rightarrow> (Inl e, st')
      | (Inr v, st') \<Rightarrow> run_step fns i acts st')"
| "run_step fns i (TryNext # acts) st =
     (case call_next fns (Step i) st of (r, st') \<Rightarrow> run_step fns i acts st')"
| "run_step fns i (DeferNext # acts) st =
     run_step fns i acts (st\<lparr>timers := timers st @ [i]\<rparr>)"
| "run_step fns i (Raise e # acts) st = (Inl (Thrown e), st)"
  by pat_completeness auto

lemma curr_mono_dom:
  "call_next_run_step_dom (Inl (fns, who, st)) \<Longrightarrow>
     curr st \<le> curr (snd (call_next fns who st))"
  "call_next_run_step_dom (Inr (fns, i, acts, st)) \<Longrightarrow>
     curr st \<le> curr (snd (run_step fns i acts st))"
proof (induction fns who st and fns i acts st rule: call_next_run_step.pinduct)
  case (1 fns who st)
  show ?case
  proof (cases "curr st < length fns")
    case True
    with 1 show ?thesis by (simp add: call_next.psimps Let_def) force
  next
    case False
    with 1 show ?thesis by (simp add: call_next.psimps Let_def)
  qed
next
  case (2 fns i st)
  then show ?case by (simp add: run_step.psimps)
next
  case (3 fns i acts st)
  obtain r st' where c: "call_next fns (Step i) st = (r, st')"
    by (cases "call_next fns (Step i) st")
  show ?case
  proof (cases r)
    case (Inl e)
    with 3 c show ?thesis by (simp add: run_step.psimps)
  next
    case (Inr v)
    with 3 c have "curr st' \<le> curr (snd (run_step fns i acts st'))" by simp
    moreover from 3 c have "curr st \<le> curr st'" by simp
    ultimately show ?thesis using 3 c Inr by (simp add: run_step.psimps)
  qed
next
  case (4 fns i acts st)
  obtain r st' where c: "call_next fns (Step i) st = (r, st')"
    by (cases "call_next fns (Step i) st")
  with 4 have "curr st' \<le> curr (snd (run_step fns i acts st'))" by simp
  moreover from 4 c have "curr st \<le> curr st'" by simp
  ultimately show ?case using 4 c by (simp add: run_step.psimps)
next
  case (5 fns i acts st)
  then show ?case by (simp add: run_step.psimps)
next
  case (6 fns i e acts st)
  then show ?case by (simp add: run_step.psimps)
qed

termination call_next
proof (relation
    "measures [\<lambda>x. case x of Inl (fns, who, st) \<Rightarrow> length fns - curr st
                            | Inr (fns, i, acts, st) \<Rightarrow> length fns - curr st,
               \<lambda>x. case x of Inl (fns, who, st) \<Rightarrow> 0
                            | Inr (fns, i, acts, st) \<Rightarrow> Suc (length acts)]",
    goal_cases)
  case 1
  show ?case by simp
next
  case (2 fns who st x xa)
  then show ?case by auto
next
  case (3 fns i acts st)
  then show ?case by simp
next
  case (4 fns i acts st x y b)
  then have "curr st \<le> curr y"
    using curr_mono_dom(1) [of fns "Step i" st] by (metis snd_conv)
  then show ?case by auto
next
  case (5 fns i acts st)
  then show ?case by simp
next
  case (6 fns i acts st x y)
  then have "curr st \<le> curr y"
    using curr_mono_dom(1) [of fns "Step i" st] by (metis snd_conv)
  then show ?case by auto
next
  case (7 fns i acts st)
  then show ?case by simp
qed

text \<open>
  \<^verbatim>\<open>chainAsync(fns)\<close>: \<^verbatim>\<open>curr = 0\<close>, then \<^verbatim>\<open>next()\<close> as a statement. An exception of that call
  is the exception of \<^verbatim>\<open>chainAsync\<close>; otherwise \<^verbatim>\<open>chainAsync\<close> returns \<^verbatim>\<open>undefined\<close>. The
  chain it returns holds the calls of \<^verbatim>\<open>next\<close> still deferred.
\<close>

definition chainAsync :: "step list \<Rightarrow> (exn + jsval) \<times> chain" where
  "chainAsync fns =
     (case call_next fns Root \<lparr>curr = 0, timers = [], trace = []\<rparr> of
        (Inl e, st) \<Rightarrow> (Inl e, st)
      | (Inr v, st) \<Rightarrow> (Inr Undefined, st))"

text \<open>
  The host then makes the deferred calls, oldest first, each as a task of its own: an
  exception of a task ends that task only. \<open>backlog\<close> bounds the calls still to be made:
  the ones queued and the ones the steps not yet begun can defer.
\<close>

definition deferrals :: "action list \<Rightarrow> nat" where
  "deferrals acts = length (filter (\<lambda>a. a = DeferNext) acts)"

definition backlog :: "step list \<Rightarrow> chain \<Rightarrow> nat" where
  "backlog fns st = length (timers st) + sum_list (map deferrals (drop (curr st) fns))"

lemma backlog_call_next:
  "backlog fns (snd (call_next fns who st)) \<le> backlog fns st"
  "backlog fns (snd (run_step fns i acts st)) \<le> backlog fns st + deferrals acts"
proof (induction fns who st and fns i acts st rule: call_next_run_step.induct)
  case (1 fns who st)
  show ?case
  proof (cases "curr st < length fns")
    case True
    have "drop (curr st) fns = fns ! curr st # drop (Suc (curr st)) fns"
      using True by (simp add: Cons_nth_drop_Suc)
    then have "backlog fns (st\<lparr>curr := curr st + 1,
                   trace := trace st @ [Advance who, Began (curr st)]\<rparr>) + deferrals (fns ! curr st)
               = backlog fns st"
      by (simp add: backlog_def)
    with 1 True show ?thesis by (simp add: Let_def)
  next
    case False
    then show ?thesis by (simp add: Let_def backlog_def)
  qed
next
  case (2 fns i st)
  then show ?case by simp
next
  case (3 fns i acts st)
  obtain r st' where c: "call_next fns (Step i) st = (r, st')"
    by (cases "call_next fns (Step i) st")
  from 3 c have le: "backlog fns st' \<le> backlog fns st" by simp
  show ?case
  proof (cases r)
    case (Inl e)
    with c le show ?thesis by simp
  next
    case (Inr v)
    with 3 c have "backlog fns (snd (run_step fns i acts st')) \<le> backlog fns st' + deferrals acts"
      by simp
    with le c Inr show ?thesis by (simp add: deferrals_def)
  qed
next
  case (4 fns i acts st)
  obtain r st' where c: "call_next fns (Step i) st = (r, st')"
    by (cases "call_next fns (Step i) st")
  from 4 c have "backlog fns st' \<le> backlog fns st" by simp
  moreover from 4 c
  have "backlog fns (snd (run_step fns i acts st')) \<le> backlog fns st' + deferrals acts"
    by simp
  ultimately show ?case using c by (simp add: deferrals_def)
next
  case (5 fns i acts st)
  then show ?case by (simp add: backlog_def deferrals_def)
next
  case (6 fns i e acts st)
  then show ?case by simp
qed

function run_timers :: "step list \<Rightarrow> chain \<Rightarrow> chain" where
  "run_timers fns st =
     (case timers st of
        [] \<Rightarrow> st
      | i # rest \<Rightarrow> run_timers fns (snd (call_next fns (Step i) (st\<lparr>timers := rest\<rparr>))))"
  by pat_completeness auto

termination
proof (relation "measure (\<lambda>(fns, st). backlog fns st)", goal_cases)
  case 1
  show ?case by simp
next
  case (2 fns st i rest)
  have "backlog fns (snd (call_next fns (Step i) (st\<lparr>timers := rest\<rparr>)))
          \<le> backlog fns (st\<lparr>timers := rest\<rparr>)"
    by (rule backlog_call_next(1))
  also have "\<dots> < backlog fns st" using 2 by (simp add: backlog_def)
  finally show ?case by simp
qed

text \<open>The chain once the host has made every deferred call.\<close>

definition chainAsync_settled :: "step list \<Rightarrow> chain" where
  "chainAsync_settled fns = run_timers fns (snd (chainAsync fns))"







text \<open>The steps begun in a history, in the order they began.\<close>

definition begun :: "event list \<Rightarrow> nat list" where
  "begun evs = concat (map (\<lambda>e. case e of Began i \<Rightarrow> [i] | _ \<Rightarrow> []) evs)"

section \<open>Example inputs\<close>

text \<open>
  Functions of the documentation's examples, on a world that records the names of the
  functions called, in call order. They compute on numbers and return \<open>NaN\<close> on other
  operands.
\<close>

definition add5 :: "string list jsfun" where
  "add5 = \<lparr>fn_ident = Declared 1, fn_length = 1,
           fn_call = (\<lambda>args s. (Inr (case args of Num x # rest \<Rightarrow> Num (x + 5) | _ \<Rightarrow> NaN),
                                 s @ [''add5'']))\<rparr>"

definition multiply :: "string list jsfun" where
  "multiply = \<lparr>fn_ident = Declared 2, fn_length = 2,
               fn_call = (\<lambda>args s. (Inr (case args of Num x # Num y # rest \<Rightarrow> Num (x * y) | _ \<Rightarrow> NaN),
                                     s @ [''multiply'']))\<rparr>"

text \<open>
  The variadic \<^verbatim>\<open>count_args = (...xs) => xs.length\<close>, of length 0, and the function
  \<^verbatim>\<open>(...args) => count_args(...args)\<close> wrapped around it: another object with the same
  length and the same behaviour.
\<close>

definition count_args :: "string list jsfun" where
  "count_args = \<lparr>fn_ident = Declared 4, fn_length = 0,
                 fn_call = (\<lambda>args s. (Inr (Num (int (length args))), s @ [''count_args'']))\<rparr>"

definition count_args_wrapper :: "string list jsfun" where
  "count_args_wrapper = \<lparr>fn_ident = Declared 5, fn_length = 0, fn_call = fn_call count_args\<rparr>"

text \<open>
  \<^verbatim>\<open>add3 = (a, b, c) => a + b + c\<close> on numbers, on a world that counts the calls made.
\<close>

definition add3 :: "nat jsfun" where
  "add3 = \<lparr>fn_ident = Declared 3, fn_length = 3,
           fn_call = (\<lambda>args n. (Inr (case args of Num a # Num b # Num c # rest \<Rightarrow> Num (a + b + c)
                                                | _ \<Rightarrow> NaN),
                                 Suc n))\<rparr>"

text \<open>
  Callback-style functions: \<^verbatim>\<open>(cb) => cb(null, 42)\<close>, \<^verbatim>\<open>(cb) => cb(err, undefined)\<close> for an
  \<^verbatim>\<open>Error\<close> object \<open>err\<close>, \<^verbatim>\<open>(cb) => cb(0, 42)\<close>, \<^verbatim>\<open>(cb) => cb(null, Promise.reject('x'))\<close>,
  and \<^verbatim>\<open>(d, cb) => setTimeout(cb, d)\<close>, whose callback is invoked later, without arguments.
\<close>

definition calls_back_42 :: "jsval list \<Rightarrow> cb_use" where
  "calls_back_42 args = \<lparr>during = [(Null, Value (Num 42))], throws = None, afterwards = []\<rparr>"

definition calls_back_error :: "jsval list \<Rightarrow> cb_use" where
  "calls_back_error args =
     \<lparr>during = [(Ref 1, Value Undefined)], throws = None, afterwards = []\<rparr>"

definition calls_back_zero :: "jsval list \<Rightarrow> cb_use" where
  "calls_back_zero args = \<lparr>during = [(Num 0, Value (Num 42))], throws = None, afterwards = []\<rparr>"

definition calls_back_thenable :: "jsval list \<Rightarrow> cb_use" where
  "calls_back_thenable args =
     \<lparr>during = [(Null, Thenable (Rejected (Str ''x'')))], throws = None, afterwards = []\<rparr>"

definition delay :: "jsval list \<Rightarrow> cb_use" where
  "delay args = \<lparr>during = [], throws = None, afterwards = [(Undefined, Value Undefined)]\<rparr>"

text \<open>
  Promise-returning functions, on a world that records each call with its argument:
  \<^verbatim>\<open>() => Promise.resolve(1)\<close>, \<^verbatim>\<open>prev => Promise.resolve(prev + 1)\<close> (on numbers; \<open>NaN\<close> on
  other operands) and \<^verbatim>\<open>() => Promise.reject('boom')\<close>.
\<close>

definition resolves_one :: "(string \<times> jsval) list producer" where
  "resolves_one prev w = (ReturnsPromise (Fulfilled (Num 1)), w @ [(''one'', prev)])"

definition resolves_next :: "(string \<times> jsval) list producer" where
  "resolves_next prev w =
     (ReturnsPromise (Fulfilled (case prev of Num n \<Rightarrow> Num (n + 1) | _ \<Rightarrow> NaN)),
      w @ [(''next'', prev)])"

definition rejects_boom :: "(string \<times> jsval) list producer" where
  "rejects_boom prev w = (ReturnsPromise (Rejected (Str ''boom'')), w @ [(''boom'', prev)])"

text \<open>
  Chains: three steps that call \<^verbatim>\<open>next()\<close> there and then; the documentation's example, whose
  first two steps pass \<^verbatim>\<open>next\<close> to \<^verbatim>\<open>setTimeout\<close> and whose last step does not use it; a
  first step that calls \<^verbatim>\<open>next()\<close> twice, before two steps and before one step that never
  call it; a final step that defers its call; and a final step that calls \<^verbatim>\<open>next()\<close> in a
  \<^verbatim>\<open>try\<close> block and catches.
\<close>

definition three_sync :: "step list" where
  "three_sync = [[CallNext], [CallNext], [CallNext]]"

definition three_timed :: "step list" where
  "three_timed = [[DeferNext], [DeferNext], []]"

definition twice_then_idle :: "step list" where
  "twice_then_idle = [[CallNext, CallNext], [], []]"




section \<open>Properties of compose and pipeFunctions\<close>

lemma js_bind_assoc: "js_bind (js_bind m k) h = js_bind m (\<lambda>v. js_bind (k v) h)"
  by (auto simp: js_bind_def fun_eq_iff split: prod.splits sum.splits)

lemma js_bind_unit: "js_bind m (\<lambda>r s. (Inr r, s)) = m"
  by (auto simp: js_bind_def fun_eq_iff split: prod.splits sum.splits)

lemma js_bind_value: "js_bind (\<lambda>s. (Inr r, s)) k = k r"
  by (simp add: js_bind_def fun_eq_iff)

lemma nested_snoc:
  "nested f (gs @ [g]) = (\<lambda>args. js_bind (fn_call g args) (\<lambda>r. nested f gs [r]))"
proof (induction gs arbitrary: f)
  case Nil
  show ?case by (rule ext) simp
next
  case (Cons g' gs)
  show ?case by (rule ext) (simp add: Cons.IH js_bind_assoc)
qed

lemma compose_foldl:
  "fn_call acc = nested f fs \<Longrightarrow>
   fn_call (foldl (\<lambda>f g. \<lparr>fn_ident = Composed (fn_ident f) (fn_ident g), fn_length = 0,
                          fn_call = (\<lambda>args. js_bind (fn_call g args) (\<lambda>r. fn_call f [r]))\<rparr>)
              acc gs)
     = nested f (fs @ gs)"
proof (induction gs arbitrary: acc fs)
  case Nil
  then show ?case by simp
next
  case (Cons g gs)
  have "fn_call \<lparr>fn_ident = Composed (fn_ident acc) (fn_ident g), fn_length = 0,
                 fn_call = (\<lambda>args. js_bind (fn_call g args) (\<lambda>r. fn_call acc [r]))\<rparr>
          = nested f (fs @ [g])"
    using Cons.prems by (simp add: nested_snoc)
  from Cons.IH [OF this] show ?case by simp
qed

text \<open>
  Claim C1. For functions \<open>f1, ..., fn\<close> (\<open>n \<ge> 1\<close>, here \<open>f # gs\<close>), \<^verbatim>\<open>compose\<close> returns a
  callable, and applying it to any argument list gives \<^verbatim>\<open>f1(f2(...fn(...args)))\<close>, value
  and effects: the rightmost function receives the arguments, every other function
  exactly the one value produced to its right.
\<close>

theorem compose_nested:
  "\<exists>h. compose (f # gs) = Inr h \<and> (\<forall>args s. fn_call h args s = nested f gs args s)"
proof -
  have "fn_call f = nested f []" by (rule ext) simp
  from compose_foldl [OF this, of gs] show ?thesis
    by (simp add: compose_def array_reduce_def)
qed

text \<open>The documentation's example: \<^verbatim>\<open>compose(add5, multiply)(5, 2)\<close> is 15, \<open>multiply\<close> running first.\<close>

theorem compose_nested_witness:
  "\<exists>h. compose [add5, multiply] = Inr h \<and>
       fn_call h [Num 5, Num 2] [] = (Inr (Num 15), [''multiply'', ''add5''])"
  using compose_nested [of add5 "[multiply]"]
  by (auto simp: js_bind_def add5_def multiply_def)

lemma feed_Nil: "feed [] = (\<lambda>r s. (Inr r, s))"
  by (rule ext) simp

lemma feed_snoc: "feed (gs @ [g]) = (\<lambda>r. js_bind (feed gs r) (\<lambda>r'. fn_call g [r']))"
proof (induction gs)
  case Nil
  show ?case by (rule ext) (simp add: feed_Nil js_bind_unit js_bind_value)
next
  case (Cons g' gs)
  show ?case by (rule ext) (simp add: Cons.IH js_bind_assoc)
qed

lemma pipe_foldl:
  "fn_call acc = piped f fs \<Longrightarrow>
   fn_call (foldl (\<lambda>f g. \<lparr>fn_ident = Piped (fn_ident f) (fn_ident g), fn_length = 0,
                          fn_call = (\<lambda>args. js_bind (fn_call f args) (\<lambda>r. fn_call g [r]))\<rparr>)
              acc gs)
     = piped f (fs @ gs)"
proof (induction gs arbitrary: acc fs)
  case Nil
  then show ?case by simp
next
  case (Cons g gs)
  have "fn_call \<lparr>fn_ident = Piped (fn_ident acc) (fn_ident g), fn_length = 0,
                 fn_call = (\<lambda>args. js_bind (fn_call acc args) (\<lambda>r. fn_call g [r]))\<rparr>
          = piped f (fs @ [g])"
  proof (rule ext)
    fix args
    have "fn_call acc args = piped f fs args" using Cons.prems by simp
    then show "fn_call \<lparr>fn_ident = Piped (fn_ident acc) (fn_ident g), fn_length = 0,
                 fn_call = (\<lambda>args. js_bind (fn_call acc args) (\<lambda>r. fn_call g [r]))\<rparr> args
          = piped f (fs @ [g]) args"
      by (simp add: piped_def feed_snoc js_bind_assoc)
  qed
  from Cons.IH [OF this] show ?case by simp
qed

text \<open>
  Claim C2. For functions \<open>f1, ..., fn\<close> (\<open>n \<ge> 1\<close>, here \<open>f # gs\<close>), \<^verbatim>\<open>pipeFunctions\<close> returns
  a callable, and applying it to any argument list gives \<^verbatim>\<open>fn(...(f2(f1(...args))))\<close>,
  value and effects: the leftmost function receives the arguments, each later function
  exactly the one value produced to its left.
\<close>

theorem pipeFunctions_piped:
  "\<exists>h. pipeFunctions (f # gs) = Inr h \<and> (\<forall>args s. fn_call h args s = piped f gs args s)"
proof -
  have "fn_call f = piped f []" by (rule ext) (simp add: piped_def feed_Nil js_bind_unit)
  from pipe_foldl [OF this, of gs] show ?thesis
    by (simp add: pipeFunctions_def array_reduce_def)
qed

text \<open>The documentation's example: \<^verbatim>\<open>pipeFunctions(multiply, add5)(5, 2)\<close> is 15.\<close>

theorem pipeFunctions_piped_witness:
  "\<exists>h. pipeFunctions [multiply, add5] = Inr h \<and>
       fn_call h [Num 5, Num 2] [] = (Inr (Num 15), [''multiply'', ''add5''])"
  using pipeFunctions_piped [of multiply "[add5]"]
  by (auto simp: piped_def js_bind_def add5_def multiply_def)

text \<open>
  On two or more functions the callable returned is a new object: its identity is that
  of none of the functions given.
\<close>

lemma foldl_new_object:
  assumes "\<And>a g. size (fn_ident a) < size (fn_ident (cb a g)) \<and>
                  size (fn_ident g) < size (fn_ident (cb a g))"
  shows "size (fn_ident acc) \<le> size (fn_ident (foldl cb acc gs)) \<and>
         (\<forall>g\<in>set gs. size (fn_ident g) < size (fn_ident (foldl cb acc gs)))"
proof (induction gs arbitrary: acc)
  case Nil
  show ?case by simp
next
  case (Cons g gs)
  from Cons.IH [of "cb acc g"] assms [of acc g] show ?case by fastforce
qed

lemma compose_new_object:
  assumes "compose (f # g # gs) = Inr h \<or> pipeFunctions (f # g # gs) = Inr h"
    and "x \<in> set (f # g # gs)"
  shows "fn_ident h \<noteq> fn_ident x"
proof -
  let ?c = "\<lambda>f g. \<lparr>fn_ident = Composed (fn_ident f) (fn_ident g), fn_length = 0,
                    fn_call = (\<lambda>args. js_bind (fn_call g args) (\<lambda>r. fn_call f [r]))\<rparr>"
  let ?p = "\<lambda>f g. \<lparr>fn_ident = Piped (fn_ident f) (fn_ident g), fn_length = 0,
                    fn_call = (\<lambda>args. js_bind (fn_call f args) (\<lambda>r. fn_call g [r]))\<rparr>"
  have c: "size (fn_ident y) < size (fn_ident (foldl ?c (?c f g) gs))" if "y \<in> set (f # g # gs)" for y
    using foldl_new_object [of ?c "?c f g" gs] that by fastforce
  have p: "size (fn_ident y) < size (fn_ident (foldl ?p (?p f g) gs))" if "y \<in> set (f # g # gs)" for y
    using foldl_new_object [of ?p "?p f g" gs] that by fastforce
  from assms(1) have "h = foldl ?c (?c f g) gs \<or> h = foldl ?p (?p f g) gs"
    by (auto simp: compose_def pipeFunctions_def array_reduce_def)
  with c [OF assms(2)] p [OF assms(2)] show ?thesis by auto
qed

text \<open>
  Claim C10. On a single function \<open>f\<close>, \<^verbatim>\<open>compose\<close> and \<^verbatim>\<open>pipeFunctions\<close> return \<open>f\<close> itself:
  the same object (the same identity), with the same declared length and the same
  behaviour, whatever the length of \<open>f\<close> (a variadic \<open>f\<close> has length 0). They return no
  other function object, in particular no closure around \<open>f\<close>, however such an object
  behaves.
\<close>

theorem compose_single:
  "compose [f] = Inr f \<and> pipeFunctions [f] = Inr f \<and>
   (\<forall>w. fn_ident w \<noteq> fn_ident f \<longrightarrow> compose [f] \<noteq> Inr w \<and> pipeFunctions [f] \<noteq> Inr w)"
  by (auto simp: compose_def pipeFunctions_def array_reduce_def)

text \<open>
  For the variadic \<^verbatim>\<open>(...xs) => xs.length\<close>: the function itself is returned, not the
  wrapper \<^verbatim>\<open>(...args) => count_args(...args)\<close>, which has the same length and the same
  behaviour but is another object; and \<^verbatim>\<open>compose(count_args, count_args)\<close> is a new object.
\<close>

theorem compose_single_witness:
  "compose [count_args] = Inr count_args \<and> pipeFunctions [count_args] = Inr count_args \<and>
   fn_length count_args = 0 \<and>
   fn_length count_args_wrapper = fn_length count_args \<and>
   fn_call count_args_wrapper = fn_call count_args \<and>
   compose [count_args] \<noteq> Inr count_args_wrapper \<and>
   pipeFunctions [count_args] \<noteq> Inr count_args_wrapper \<and>
   compose [count_args, count_args] \<noteq> Inr count_args"
proof -
  have "fn_ident count_args_wrapper \<noteq> fn_ident count_args"
    by (simp add: count_args_wrapper_def count_args_def)
  with compose_single [of count_args]
  have "compose [count_args] = Inr count_args \<and> pipeFunctions [count_args] = Inr count_args \<and>
        compose [count_args] \<noteq> Inr count_args_wrapper \<and>
        pipeFunctions [count_args] \<noteq> Inr count_args_wrapper"
    by blast
  moreover have "compose [count_args, count_args] \<noteq> Inr count_args"
    using compose_new_object [of count_args count_args "[]" count_args count_args] by auto
  ultimately show ?thesis by (simp add: count_args_wrapper_def count_args_def)
qed

text \<open>
  Claim C8. On the empty sequence, \<^verbatim>\<open>compose()\<close> and \<^verbatim>\<open>pipeFunctions()\<close> raise a
  \<^verbatim>\<open>TypeError\<close> (from \<^verbatim>\<open>reduce\<close>, as soon as they are called), so the expressions
  \<^verbatim>\<open>compose()(...args)\<close> and \<^verbatim>\<open>pipeFunctions()(...args)\<close> fail for every argument list; they
  never return an argument as an identity function would.
\<close>

theorem compose_empty:
  "compose [] = Inl TypeError \<and> pipeFunctions [] = Inl TypeError \<and>
   apply_to (compose []) args s = (Inl TypeError, s) \<and>
   apply_to (pipeFunctions []) args s = (Inl TypeError, s)"
  by (simp add: compose_def pipeFunctions_def array_reduce_def apply_to_def)

theorem compose_empty_witness:
  "apply_to (compose []) [Num 7] ([] :: string list) = (Inl TypeError, []) \<and>
   apply_to (pipeFunctions []) [Num 7] ([] :: string list) = (Inl TypeError, [])"
  using compose_empty [of "[Num 7]" "[] :: string list"] by blast

section \<open>Properties of curry\<close>

lemma call_curried_Partial:
  "call_curried (Partial fn k acc) extra s =
     (if k \<le> int (length (acc @ extra)) then direct_call fn (acc @ extra) s
      else (Inr (Partial fn k (acc @ extra)), s))"
  by (simp add: call_curried_def curry_js_def direct_call_def)

lemma apply_groups_Partial:
  "\<forall>g\<in>set groups. g \<noteq> [] \<Longrightarrow> int (length acc) < k \<Longrightarrow>
   int (length acc + length (concat groups)) = k \<Longrightarrow>
   apply_groups (Partial fn k acc) groups s = direct_call fn (acc @ concat groups) s"
proof (induction groups arbitrary: acc)
  case Nil
  then show ?case by simp
next
  case (Cons g gs)
  show ?case
  proof (cases gs)
    case Nil
    with Cons.prems show ?thesis
      by (simp add: call_curried_Partial direct_call_def split: prod.splits sum.splits)
  next
    case gs: (Cons g' gs')
    with Cons.prems have "g' \<noteq> []" by simp
    then have "0 < length g'" by simp
    moreover have "length (concat gs) = length g' + length (concat gs')" by (simp add: gs)
    ultimately have "0 < int (length (concat gs))" by linarith
    moreover from Cons.prems(3) have "int (length (acc @ g)) + int (length (concat gs)) = k"
      by simp
    ultimately have short: "int (length (acc @ g)) < k" by linarith
    have "apply_groups (Partial fn k (acc @ g)) gs s = direct_call fn ((acc @ g) @ concat gs) s"
      using Cons.prems short by (intro Cons.IH) simp_all
    with short show ?thesis by (simp add: call_curried_Partial)
  qed
qed

text \<open>
  Claim C3. Let \<open>fn\<close> have arity \<open>k\<close> (its declared length for \<^verbatim>\<open>curry(fn)\<close>, the explicit
  arity for \<^verbatim>\<open>curry(fn, k)\<close>), and let \<open>k\<close> arguments be split into consecutive groups of one or
  more. Applying what \<^verbatim>\<open>curry\<close> returned to the groups, one after the other, has the value
  and the effects of the single call \<^verbatim>\<open>fn(a1, ..., ak)\<close>, so \<open>fn\<close> is invoked exactly once, on
  the full argument list. Each application step appends the new arguments to the
  accumulated ones and invokes \<open>fn\<close> on all of them as soon as their number reaches the
  arity; otherwise it returns a new partial application and leaves the world unchanged.
\<close>

theorem curry_groups:
  assumes "\<forall>g\<in>set groups. g \<noteq> []"
    and "int (length (concat groups)) = (case arity_arg of None \<Rightarrow> int (fn_length fn) | Some k \<Rightarrow> k)"
  shows "js_bind (curry_js fn arity_arg []) (\<lambda>c. apply_groups c groups) s
           = direct_call fn (concat groups) s
         \<and> (\<forall>k acc extra s'. call_curried (Partial fn k acc) extra s' =
               (if k \<le> int (length (acc @ extra)) then direct_call fn (acc @ extra) s'
                else (Inr (Partial fn k (acc @ extra)), s')))"
proof
  define k where "k = (case arity_arg of None \<Rightarrow> int (fn_length fn) | Some k \<Rightarrow> k)"
  show "js_bind (curry_js fn arity_arg []) (\<lambda>c. apply_groups c groups) s
           = direct_call fn (concat groups) s"
  proof (cases "k \<le> 0")
    case True
    from assms(2) have "int (length (concat groups)) = k" by (simp add: k_def)
    with True have "length (concat groups) = 0" by linarith
    then have "concat groups = []" using length_0_conv by blast
    then have "\<forall>g\<in>set groups. g = []" by simp
    with assms(1) have "groups = []" by (cases groups) auto
    with True show ?thesis
      by (simp add: js_bind_def curry_js_def direct_call_def k_def split: prod.splits sum.splits)
  next
    case False
    then have "curry_js fn arity_arg [] s = (Inr (Partial fn k []), s)"
      by (simp add: curry_js_def k_def)
    moreover have "apply_groups (Partial fn k []) groups s = direct_call fn ([] @ concat groups) s"
      using assms False by (intro apply_groups_Partial) (simp_all add: k_def)
    ultimately show ?thesis by (simp add: js_bind_def)
  qed
next
  show "\<forall>k acc extra s'. call_curried (Partial fn k acc) extra s' =
               (if k \<le> int (length (acc @ extra)) then direct_call fn (acc @ extra) s'
                else (Inr (Partial fn k (acc @ extra)), s'))"
    by (simp add: call_curried_Partial)
qed

text \<open>
  \<^verbatim>\<open>curry(add3)(1)(2)(3)\<close>, \<^verbatim>\<open>curry(add3)(1, 2)(3)\<close> and \<^verbatim>\<open>curry(add3, 3)(1, 2, 3)\<close> are
  \<^verbatim>\<open>add3(1, 2, 3)\<close>, with one call of \<open>add3\<close> each.
\<close>

theorem curry_groups_witness:
  "js_bind (curry_js add3 None []) (\<lambda>c. apply_groups c [[Num 1], [Num 2], [Num 3]]) 0
     = (Inr (Plain (Num 6)), 1) \<and>
   js_bind (curry_js add3 None []) (\<lambda>c. apply_groups c [[Num 1, Num 2], [Num 3]]) 0
     = (Inr (Plain (Num 6)), 1) \<and>
   js_bind (curry_js add3 (Some 3) []) (\<lambda>c. apply_groups c [[Num 1, Num 2, Num 3]]) 0
     = (Inr (Plain (Num 6)), 1) \<and>
   direct_call add3 [Num 1, Num 2, Num 3] 0 = (Inr (Plain (Num 6)), 1)"
proof -
  have d: "direct_call add3 [Num 1, Num 2, Num 3] 0 = (Inr (Plain (Num 6)), 1)"
    by (simp add: direct_call_def add3_def)
  have a: "js_bind (curry_js add3 None []) (\<lambda>c. apply_groups c [[Num 1], [Num 2], [Num 3]]) 0
        = direct_call add3 (concat [[Num 1], [Num 2], [Num 3]]) 0"
    using curry_groups [where groups = "[[Num 1], [Num 2], [Num 3]]" and arity_arg = None and fn = add3 and s = 0] by (simp add: add3_def)
  have b: "js_bind (curry_js add3 None []) (\<lambda>c. apply_groups c [[Num 1, Num 2], [Num 3]]) 0
        = direct_call add3 (concat [[Num 1, Num 2], [Num 3]]) 0"
    using curry_groups [where groups = "[[Num 1, Num 2], [Num 3]]" and arity_arg = None and fn = add3 and s = 0] by (simp add: add3_def)
  have c: "js_bind (curry_js add3 (Some 3) []) (\<lambda>c. apply_groups c [[Num 1, Num 2, Num 3]]) 0
        = direct_call add3 (concat [[Num 1, Num 2, Num 3]]) 0"
    using curry_groups [where groups = "[[Num 1, Num 2, Num 3]]" and arity_arg = "Some 3" and fn = add3 and s = 0] by simp
  from a b c d show ?thesis by simp
qed

section \<open>Properties of promisify\<close>

lemma completion_callback_Unresolved:
  "completion_callback err result Unresolved = Resolved (decided err result)"
  by (simp add: completion_callback_def resolve_def reject_def decided_def)

lemma resolved_stays:
  "c \<noteq> Unresolved \<Longrightarrow> foldl (\<lambda>c (err, result). completion_callback err result c) c xs = c"
proof (induction xs)
  case Nil
  show ?case by simp
next
  case (Cons x xs)
  obtain err result where x: "x = (err, result)" by (cases x)
  have "completion_callback err result c = c"
    using Cons.prems by (simp add: completion_callback_def resolve_def reject_def)
  with Cons show ?case by (simp add: x)
qed

lemma first_invocation_decides:
  "foldl (\<lambda>c (err, result). completion_callback err result c) Unresolved ((err, result) # xs)
     = Resolved (decided err result)"
  by (simp add: completion_callback_Unresolved resolved_stays)

text \<open>
  Claim C4, as stated, fails: an error argument that is not null but falsy (here \<open>0\<close>)
  fulfils the promise with the second argument instead of rejecting it.
\<close>

theorem promisify_nonnull_error_counterexample:
  "Num 0 \<noteq> Null \<and> Num 0 \<noteq> Undefined \<and>
   invocations (calls_back_zero []) = [(Num 0, Value (Num 42))] \<and>
   promisify_settled calls_back_zero [] = Fulfilled (Num 42) \<and>
   promisify_settled calls_back_zero [] \<noteq> Rejected (Num 0)"
  by (simp add: invocations_def calls_back_zero_def promisify_settled_def promisify_def
      completion_callback_def resolve_def reject_def ends_in_def)

text \<open>
  Claim C4, amended. Let \<open>(err, result)\<close> be the first invocation of the completion
  callback that \<open>fn\<close> makes on \<open>args\<close>, during the call or later, and let \<open>fn\<close> not throw
  before it. Then the promise of \<^verbatim>\<open>promisify(fn)(...args)\<close> is rejected with exactly \<open>err\<close>
  when \<open>err\<close> is truthy. When \<open>err\<close> is falsy (null, undefined or absent, false, 0, NaN, the
  empty string), the promise is fulfilled with exactly \<open>result\<close> if \<open>result\<close> is not a
  thenable, and follows \<open>result\<close> if it is one: it ends as the thenable does, which may be
  in a rejection.
\<close>

theorem promisify_first_invocation:
  assumes "invocations (fn args) = (err, result) # rest"
    and "during (fn args) = [] \<longrightarrow> throws (fn args) = None"
  shows "promisify_settled fn args =
           (if truthy err then Rejected err
            else case result of Value v \<Rightarrow> Fulfilled v | Thenable q \<Rightarrow> q)"
proof -
  have "promisify_settled fn args = decided err result"
  proof (cases "during (fn args)")
    case Nil
    with assms have "afterwards (fn args) = (err, result) # rest" and "throws (fn args) = None"
      by (simp_all add: invocations_def)
    with Nil show ?thesis
      by (simp add: promisify_settled_def promisify_def first_invocation_decides ends_in_def
          del: foldl_Cons)
  next
    case (Cons x xs)
    with assms(1) have d: "during (fn args) = (err, result) # xs"
      by (simp add: invocations_def)
    have "promisify fn args = Resolved (decided err result)"
      by (simp add: promisify_def Let_def d first_invocation_decides reject_def
          del: foldl_Cons split: option.splits)
    moreover have "foldl (\<lambda>c (err, result). completion_callback err result c)
                     (Resolved (decided err result)) (afterwards (fn args))
                   = Resolved (decided err result)"
      by (rule resolved_stays) simp
    ultimately show ?thesis
      by (simp only: promisify_settled_def) (simp add: ends_in_def)
  qed
  then show ?thesis by (simp add: decided_def)
qed

text \<open>
  The round trip of the specification: a callback with \<^verbatim>\<open>(null, 42)\<close> resolves to 42, a
  callback with an \<^verbatim>\<open>Error\<close> object rejects with it, and a callback made later without
  arguments resolves to \<^verbatim>\<open>undefined\<close>. A callback with \<^verbatim>\<open>(null, Promise.reject('x'))\<close>
  rejects with \<^verbatim>\<open>'x'\<close>.
\<close>

theorem promisify_first_invocation_witness:
  "promisify_settled calls_back_42 [] = Fulfilled (Num 42) \<and>
   promisify_settled calls_back_error [] = Rejected (Ref 1) \<and>
   promisify_settled calls_back_thenable [] = Rejected (Str ''x'') \<and>
   promisify delay [Num 2000] = Unresolved \<and>
   promisify_settled delay [Num 2000] = Fulfilled Undefined"
proof -
  have "promisify_settled calls_back_42 [] = Fulfilled (Num 42)"
    using promisify_first_invocation [of calls_back_42 "[]" Null "Value (Num 42)" "[]"]
    by (simp add: invocations_def calls_back_42_def)
  moreover have "promisify_settled calls_back_error [] = Rejected (Ref 1)"
    using promisify_first_invocation [of calls_back_error "[]" "Ref 1" "Value Undefined" "[]"]
    by (simp add: invocations_def calls_back_error_def)
  moreover have "promisify_settled calls_back_thenable [] = Rejected (Str ''x'')"
    using promisify_first_invocation
      [of calls_back_thenable "[]" Null "Thenable (Rejected (Str ''x''))" "[]"]
    by (simp add: invocations_def calls_back_thenable_def)
  moreover have "promisify_settled delay [Num 2000] = Fulfilled Undefined"
    using promisify_first_invocation [of delay "[Num 2000]" Undefined "Value Undefined" "[]"]
    by (simp add: invocations_def delay_def)
  moreover have "promisify delay [Num 2000] = Unresolved"
    by (simp add: promisify_def delay_def)
  ultimately show ?thesis by simp
qed

section \<open>Properties of runPromisesInSeries\<close>

lemma foldl_promise_then:
  "foldl (\<lambda>p next_fn. promise_then p next_fn) p ps s =
     (case p s of
        (Fulfilled v, s') \<Rightarrow> in_series ps v s'
      | (Rejected e, s') \<Rightarrow> (Rejected e, s')
      | (Pending, s') \<Rightarrow> (Pending, s'))"
proof (induction ps arbitrary: p)
  case Nil
  show ?case by (simp split: prod.splits promise.splits)
next
  case (Cons f fs)
  have "foldl (\<lambda>p next_fn. promise_then p next_fn) p (f # fs) s =
          (case promise_then p f s of
             (Fulfilled v, s') \<Rightarrow> in_series fs v s'
           | (Rejected e, s') \<Rightarrow> (Rejected e, s')
           | (Pending, s') \<Rightarrow> (Pending, s'))"
    by (simp only: foldl_Cons Cons.IH)
  also have "\<dots> = (case p s of
        (Fulfilled v, s') \<Rightarrow> in_series (f # fs) v s'
      | (Rejected e, s') \<Rightarrow> (Rejected e, s')
      | (Pending, s') \<Rightarrow> (Pending, s'))"
    by (simp add: promise_then_def split: prod.splits promise.splits returned.splits)
  finally show ?case .
qed

text \<open>
  Claim C5. \<^verbatim>\<open>runPromisesInSeries\<close> does what \<open>in_series\<close> says: the functions are invoked
  in list order, each only after the promise of the one before has fulfilled, the first
  on \<^verbatim>\<open>undefined\<close> and each later one on the value the previous promise resolved to. The
  promise returned for a list ending in \<open>f\<close> is \<^verbatim>\<open>then(f)\<close> of the promise for the list
  before \<open>f\<close>: once that has fulfilled with \<open>v\<close>, it settles as the promise of \<open>f v\<close> does.
\<close>

theorem runPromisesInSeries_in_series:
  "runPromisesInSeries ps s = in_series ps Undefined s \<and>
   runPromisesInSeries (ps @ [f]) = promise_then (runPromisesInSeries ps) f"
  by (simp add: runPromisesInSeries_def array_reduce_from_def foldl_promise_then
      promise_resolve_def)

text \<open>
  On \<^verbatim>\<open>[() => resolve(1), prev => resolve(prev + 1), prev => resolve(prev + 1)]\<close> the promise
  settles to 3, after three calls in list order on \<^verbatim>\<open>undefined\<close>, 1 and 2.
\<close>

theorem runPromisesInSeries_in_series_witness:
  "runPromisesInSeries [resolves_one, resolves_next, resolves_next] []
     = (Fulfilled (Num 3), [(''one'', Undefined), (''next'', Num 1), (''next'', Num 2)])"
  using runPromisesInSeries_in_series
    [of "[resolves_one, resolves_next, resolves_next]" "[]" resolves_one]
  by (simp add: resolves_one_def resolves_next_def)

lemma rejected_passes:
  "p s = (Rejected e, s') \<Longrightarrow>
   foldl (\<lambda>p next_fn. promise_then p next_fn) p fs s = (Rejected e, s')"
  by (simp add: foldl_promise_then)

text \<open>
  Claim C6. If the functions before position \<open>i\<close> (\<open>pre\<close>) have all fulfilled, so that the
  function at position \<open>i\<close> (\<open>f\<close>) is called, and the promise of \<open>f\<close> fails with \<open>e\<close> (or \<open>f\<close>
  throws \<open>e\<close>), then the promise returned fails with exactly \<open>e\<close>, and the world is as
  \<open>f\<close> left it whatever the functions after position \<open>i\<close> (\<open>post\<close>) are: none of them is
  invoked.
\<close>

theorem runPromisesInSeries_fail_fast:
  assumes "runPromisesInSeries pre s = (Fulfilled v, s1)"
    and "f v s1 = (ReturnsPromise (Rejected e), s2) \<or> f v s1 = (Throws e, s2)"
  shows "runPromisesInSeries (pre @ f # post) s = (Rejected e, s2)"
proof -
  have "promise_then (runPromisesInSeries pre) f s = (Rejected e, s2)"
    using assms by (auto simp: promise_then_def)
  then show ?thesis
    by (simp add: runPromisesInSeries_def array_reduce_from_def rejected_passes)
qed

text \<open>
  When the second promise fails, the third function is never invoked and the chain fails
  with the same error.
\<close>

theorem runPromisesInSeries_fail_fast_witness:
  "runPromisesInSeries [resolves_one, rejects_boom, resolves_next] []
     = (Rejected (Str ''boom''), [(''one'', Undefined), (''boom'', Num 1)])"
proof -
  have "runPromisesInSeries [resolves_one] [] = (Fulfilled (Num 1), [(''one'', Undefined)])"
    by (simp add: runPromisesInSeries_def array_reduce_from_def promise_then_def
        promise_resolve_def resolves_one_def)
  moreover have "rejects_boom (Num 1) [(''one'', Undefined)]
      = (ReturnsPromise (Rejected (Str ''boom'')), [(''one'', Undefined), (''boom'', Num 1)])"
    by (simp add: rejects_boom_def)
  ultimately show ?thesis
    using runPromisesInSeries_fail_fast
      [of "[resolves_one]" "[]" "Num 1" "[(''one'', Undefined)]" rejects_boom "Str ''boom''"
          "[(''one'', Undefined), (''boom'', Num 1)]" "[resolves_next]"]
    by simp
qed

section \<open>Properties of chainAsync\<close>
















lemma begun_append: "begun (xs @ ys) = begun xs @ begun ys"
  by (simp add: begun_def)

lemma begun_call_next:
  "begun (trace st) = [0..<min (curr st) (length fns)] \<Longrightarrow>
   begun (trace (snd (call_next fns who st)))
     = [0..<min (curr (snd (call_next fns who st))) (length fns)]"
  "begun (trace st) = [0..<min (curr st) (length fns)] \<Longrightarrow>
   begun (trace (snd (run_step fns i acts st)))
     = [0..<min (curr (snd (run_step fns i acts st))) (length fns)]"
proof (induction fns who st and fns i acts st rule: call_next_run_step.induct)
  case (1 fns who st)
  show ?case
  proof (cases "curr st < length fns")
    case True
    let ?st = "st\<lparr>curr := curr st + 1, trace := trace st @ [Advance who, Began (curr st)]\<rparr>"
    have "begun (trace ?st) = [0..<min (curr ?st) (length fns)]"
      using "1.prems" True by (simp add: begun_append) (simp add: begun_def)
    with "1.IH" [OF refl _ True] True show ?thesis by (simp add: Let_def)
  next
    case False
    with "1.prems" show ?thesis by (simp add: Let_def begun_append) (simp add: begun_def)
  qed
next
  case (2 fns i st)
  then show ?case by simp
next
  case (3 fns i acts st)
  obtain r st' where c: "call_next fns (Step i) st = (r, st')"
    by (cases "call_next fns (Step i) st")
  from "3.IH"(1) [OF "3.prems"] c
  have st': "begun (trace st') = [0..<min (curr st') (length fns)]"
    by (simp del: call_next.simps)
  show ?case
  proof (cases r)
    case (Inl e)
    with c st' show ?thesis by (simp del: call_next.simps)
  next
    case (Inr v)
    from "3.IH"(2) [OF c [symmetric] Inr st'] c Inr show ?thesis
      by (simp del: call_next.simps)
  qed
next
  case (4 fns i acts st)
  obtain r st' where c: "call_next fns (Step i) st = (r, st')"
    by (cases "call_next fns (Step i) st")
  from "4.IH"(1) [OF "4.prems"] c
  have st': "begun (trace st') = [0..<min (curr st') (length fns)]"
    by (simp del: call_next.simps)
  from "4.IH"(2) [OF c [symmetric] st'] c show ?case
    by (simp del: call_next.simps)
next
  case (5 fns i acts st)
  then show ?case by simp
next
  case (6 fns i e acts st)
  then show ?case by simp
qed

lemma begun_run_timers:
  "begun (trace st) = [0..<min (curr st) (length fns)] \<Longrightarrow>
   begun (trace (run_timers fns st)) = [0..<min (curr (run_timers fns st)) (length fns)]"
proof (induction fns st rule: run_timers.induct)
  case (1 fns st)
  show ?case
  proof (cases "timers st")
    case Nil
    with "1.prems" show ?thesis by simp
  next
    case (Cons i rest)
    let ?st = "snd (call_next fns (Step i) (st\<lparr>timers := rest\<rparr>))"
    have "begun (trace ?st) = [0..<min (curr ?st) (length fns)]"
      using "1.prems" by (intro begun_call_next(1)) simp
    from "1.IH" [OF Cons this]
    have "begun (trace (run_timers fns ?st)) = [0..<min (curr (run_timers fns ?st)) (length fns)]" .
    moreover have "run_timers fns st = run_timers fns ?st"
      using Cons by (subst run_timers.simps) (simp del: call_next.simps run_timers.simps)
    ultimately show ?thesis by (simp del: call_next.simps run_timers.simps)
  qed
qed

text \<open>
  A property of every chain. Whatever the steps do with their continuation, the steps of a chain are invoked in list
  order, without gaps and each at most once: the steps begun are \<open>0, 1, ..., k - 1\<close>, in
  that order, for some \<open>k\<close> up to the length of the list.
\<close>

theorem chainAsync_begun_in_order:
  "\<exists>k. k \<le> length fns \<and> begun (trace (chainAsync_settled fns)) = [0..<k]"
proof -
  let ?st = "\<lparr>curr = 0, timers = [], trace = []\<rparr>"
  have "begun (trace ?st) = [0..<min (curr ?st) (length fns)]" by (simp add: begun_def)
  then have "begun (trace (snd (call_next fns Root ?st)))
      = [0..<min (curr (snd (call_next fns Root ?st))) (length fns)]"
    by (rule begun_call_next(1))
  moreover have "snd (chainAsync fns) = snd (call_next fns Root ?st)"
    by (auto simp: chainAsync_def simp del: call_next.simps split: prod.splits sum.splits)
  ultimately have "begun (trace (chainAsync_settled fns))
      = [0..<min (curr (chainAsync_settled fns)) (length fns)]"
    unfolding chainAsync_settled_def by (intro begun_run_timers) simp
  then show ?thesis by (intro exI [of _ "min (curr (chainAsync_settled fns)) (length fns)"]) simp
qed

theorem chainAsync_begun_in_order_witness:
  "begun (trace (chainAsync_settled twice_then_idle)) = [0, 1, 2] \<and>
   begun (trace (chainAsync_settled three_timed)) = [0, 1, 2] \<and>
   (\<exists>k. k \<le> length three_sync \<and> begun (trace (chainAsync_settled three_sync)) = [0..<k])"
  using chainAsync_begun_in_order [of three_sync]
  by (simp add: chainAsync_settled_def chainAsync_def twice_then_idle_def three_timed_def
      begun_def)

end
